theory Spec2Isabelle
  imports Complex_Main
begin

section \<open>Data model\<close>

text \<open>
  The pipeline of \<^verbatim>\<open>src/pipeline.py\<close> reads a hit log, extracts for every user the
  pages seen before registering, scores each journey with an attribution method and
  adds the scores up per article.

  Python's \<^verbatim>\<open>float\<close> credits are idealised as exact rationals: \<^verbatim>\<open>0.4\<close> is \<open>4/10\<close>,
  \<^verbatim>\<open>2**i / total_weight\<close> is the exact quotient. Timestamps are the values
  \<^verbatim>\<open>pd.to_datetime\<close> produced, as integers (seconds).
\<close>

type_synonym url = string

text \<open>
  A Python \<^verbatim>\<open>dict\<close> keeps its keys in insertion order and that order is visible in
  \<^verbatim>\<open>.items()\<close> and \<^verbatim>\<open>.values()\<close>, so a dict is an association list with pairwise
  distinct keys, in insertion order.
\<close>

type_synonym ('k, 'v) dict = "('k \<times> 'v) list"

type_synonym scores = "(url, rat) dict"

text \<open>The exceptions the operations of the pipeline can raise.\<close>

datatype error = IndexError | ZeroDivisionError | KeyError

text \<open>\<^verbatim>\<open>d[k] = v\<close>: an existing key keeps its place, a new key goes to the end.\<close>

fun dict_set :: "('k, 'v) dict \<Rightarrow> 'k \<Rightarrow> 'v \<Rightarrow> ('k, 'v) dict" where
  "dict_set [] k v = [(k, v)]"
| "dict_set ((k', v') # d) k v =
     (if k' = k then (k', v) # d else (k', v') # dict_set d k v)"

text \<open>\<^verbatim>\<open>d.get(k, default)\<close>.\<close>

definition dict_get :: "('k, 'v) dict \<Rightarrow> 'k \<Rightarrow> 'v \<Rightarrow> 'v" where
  "dict_get d k dflt = (case map_of d k of None \<Rightarrow> dflt | Some v \<Rightarrow> v)"

text \<open>
  \<^verbatim>\<open>xs[i]\<close> for a list: a negative index counts from the end, an index outside the
  list raises \<^verbatim>\<open>IndexError\<close>.
\<close>

definition py_index :: "'a list \<Rightarrow> int \<Rightarrow> error + 'a" where
  "py_index xs i =
     (if 0 \<le> i \<and> i < int (length xs) then Inr (xs ! nat i)
      else if i < 0 \<and> - int (length xs) \<le> i then Inr (xs ! nat (int (length xs) + i))
      else Inl IndexError)"

text \<open>\<^verbatim>\<open>a / b\<close> (true division): a zero divisor raises \<^verbatim>\<open>ZeroDivisionError\<close>.\<close>

definition truediv :: "rat \<Rightarrow> rat \<Rightarrow> error + rat" where
  "truediv a b = (if b = 0 then Inl ZeroDivisionError else Inr (a / b))"

text \<open>The sum of the values of a score mapping, \<^verbatim>\<open>sum(scores.values())\<close>.\<close>

definition credit_sum :: "scores \<Rightarrow> rat" where
  "credit_sum d = sum_list (map snd d)"

section \<open>The attribution scorer\<close>

text \<open>
  \<^verbatim>\<open>calculate_attribution_scores(journey, method)\<close>. The branches follow the
  \<^verbatim>\<open>if\<close>/\<^verbatim>\<open>elif\<close> chain of the source in its order; the chain has no \<^verbatim>\<open>else\<close>, so
  a method that matches no branch falls through to \<^verbatim>\<open>return scores\<close> with the dict
  still empty. Every loop assigns (\<^verbatim>\<open>scores[article] = ...\<close>), none accumulates.
\<close>

text \<open>The body of the \<^verbatim>\<open>position_based\<close> loop, for one \<^verbatim>\<open>(i, article)\<close>.\<close>

definition position_based_step :: "nat \<Rightarrow> nat \<times> url \<Rightarrow> scores \<Rightarrow> scores" where
  "position_based_step n = (\<lambda>(i, article) scores.
     if i = 0 then dict_set scores article (4 / 10)
     else if i = n - 1 then dict_set scores article (4 / 10)
     else dict_set scores article (2 / 10))"

text \<open>
  The body of the \<^verbatim>\<open>time_decay\<close> loop, for one \<^verbatim>\<open>(i, article)\<close>; the division is
  done in every round, so an error of an earlier round ends the loop.
\<close>

definition time_decay_step :: "int \<Rightarrow> nat \<times> url \<Rightarrow> error + scores \<Rightarrow> error + scores" where
  "time_decay_step total_weight = (\<lambda>(i, article) r.
     case r of
       Inl e \<Rightarrow> Inl e
     | Inr scores \<Rightarrow>
         (case truediv (of_int (2 ^ i)) (of_int total_weight) of
            Inl e \<Rightarrow> Inl e
          | Inr c \<Rightarrow> Inr (dict_set scores article c)))"

definition calculate_attribution_scores :: "url list \<Rightarrow> string \<Rightarrow> error + scores" where
  "calculate_attribution_scores journey method =
     (if journey = [] then Inr []
      else if method = ''count'' then
        Inr (fold (\<lambda>article scores. dict_set scores article 1) journey [])
      else if method = ''first_touch'' then
        (case py_index journey 0 of
           Inl e \<Rightarrow> Inl e
         | Inr a \<Rightarrow> Inr (dict_set [] a 1))
      else if method = ''last_touch'' then
        (case py_index journey (- 1) of
           Inl e \<Rightarrow> Inl e
         | Inr a \<Rightarrow> Inr (dict_set [] a 1))
      else if method = ''linear'' then
        (case truediv 1 (of_nat (length journey)) of
           Inl e \<Rightarrow> Inl e
         | Inr score \<Rightarrow>
             Inr (fold (\<lambda>article scores. dict_set scores article score) journey []))
      else if method = ''position_based'' then
        (if length journey = 1 then
           (case py_index journey 0 of
              Inl e \<Rightarrow> Inl e
            | Inr a \<Rightarrow> Inr (dict_set [] a 1))
         else
           Inr (fold (position_based_step (length journey)) (enumerate 0 journey) []))
      else if method = ''time_decay'' then
        (if length journey = 1 then
           (case py_index journey 0 of
              Inl e \<Rightarrow> Inl e
            | Inr a \<Rightarrow> Inr (dict_set [] a 1))
         else
           (let total_weight = sum_list (map (\<lambda>i. 2 ^ i) [0..<length journey])
            in fold (time_decay_step total_weight) (enumerate 0 journey) (Inr [])))
      else Inr [])"

section \<open>The event log and the result table\<close>

text \<open>One row of the hit log, with the four columns the pipeline reads.\<close>

record event =
  page_name :: string
  page_url :: url
  user_id :: string
  timestamp :: int

text \<open>One row of the result table: \<^verbatim>\<open>page_name\<close>, \<^verbatim>\<open>page_url\<close>, \<^verbatim>\<open>total\<close>.\<close>

record influence_row =
  row_name :: string
  row_url :: url
  total :: rat

text \<open>
  A pandas \<^verbatim>\<open>DataFrame\<close> is its rows in their current order, each with its index label.
  \<^verbatim>\<open>pd.read_csv\<close> labels the rows \<open>0, 1, 2, ...\<close> in file order; filtering and sorting
  move the rows and keep their labels.
\<close>

type_synonym 'a frame = "(int \<times> 'a) list"

definition read_csv :: "'a list \<Rightarrow> 'a frame" where
  "read_csv rows = zip (map int [0..<length rows]) rows"

text \<open>\<^verbatim>\<open>Series.unique()\<close>: the distinct values in order of first appearance.\<close>

fun unique :: "'a list \<Rightarrow> 'a list" where
  "unique [] = []"
| "unique (x # xs) = x # unique (filter (\<lambda>y. y \<noteq> x) xs)"

text \<open>
  \<^verbatim>\<open>sort_values(key)\<close>, ascending. The source passes no \<^verbatim>\<open>kind\<close>, so pandas sorts with
  its default algorithm, which does not promise an order among rows with equal keys;
  the model sorts by insertion, which keeps such rows in their order. The runs evaluated
  below are on logs whose times are pairwise different, where every sorting algorithm
  yields the same frame.
\<close>

definition sort_values :: "('a \<Rightarrow> 'k::linorder) \<Rightarrow> 'a frame \<Rightarrow> 'a frame" where
  "sort_values key df = sort_key (\<lambda>(l, r). key r) df"

text \<open>
  \<^verbatim>\<open>sort_values(key, ascending=False)\<close>: pandas reverses the column, sorts ascending
  and reverses the outcome.
\<close>

definition sort_values_desc :: "('a \<Rightarrow> 'k::linorder) \<Rightarrow> 'a list \<Rightarrow> 'a list" where
  "sort_values_desc key rows = rev (sort_key key (rev rows))"

text \<open>
  \<^verbatim>\<open>df.loc[:k]\<close>, a slice by index \<^emph>\<open>label\<close> with the end included. pandas looks the
  label up: when the label \<open>k\<close> is in the index the slice ends at its row
  (included), wherever the row stands. When the label is absent the end is found by
  binary search if the index is increasing (the rows labelled at most \<open>k\<close>) or
  decreasing (the rows labelled at least \<open>k\<close>), and \<^verbatim>\<open>KeyError\<close> is raised if the index
  is neither.
\<close>

definition loc_upto :: "'a frame \<Rightarrow> int \<Rightarrow> error + 'a frame" where
  "loc_upto df k =
     (let labels = map fst df in
      if k \<in> set labels then
        Inr (take (Suc (length (takeWhile (\<lambda>l. l \<noteq> k) labels))) df)
      else if sorted labels then
        Inr (take (length (filter (\<lambda>l. l \<le> k) labels)) df)
      else if sorted (rev labels) then
        Inr (take (length labels - length (filter (\<lambda>l. l < k) labels)) df)
      else Inl KeyError)"

text \<open>\<^verbatim>\<open>s.startswith(p)\<close> and \<^verbatim>\<open>s.split(c)\<close> for a one-character separator.\<close>

definition startswith :: "string \<Rightarrow> string \<Rightarrow> bool" where
  "startswith s p = (take (length p) s = p)"

fun str_split :: "char \<Rightarrow> string \<Rightarrow> string list" where
  "str_split c [] = [[]]"
| "str_split c (x # xs) =
     (if x = c then [] # str_split c xs
      else (case str_split c xs of
              [] \<Rightarrow> [[x]]
            | p # ps \<Rightarrow> (x # p) # ps))"

section \<open>Journey extraction\<close>

text \<open>
  One round of the loop over \<^verbatim>\<open>df["user_id"].unique()\<close> in
  \<^verbatim>\<open>analyze_user_journeys\<close>: \<open>None\<close> when the round adds nothing to \<^verbatim>\<open>journeys\<close>
  (the \<^verbatim>\<open>continue\<close>, or an empty list of pages), \<open>Some journey\<close> when it stores one.
  \<^verbatim>\<open>registration_index\<close> is the index label of the first registration row of the
  sorted frame, and the pages are taken with the label slice
  \<^verbatim>\<open>user_data.loc[: registration_index - 1, "page_url"]\<close>.
\<close>

definition user_journey :: "event frame \<Rightarrow> string \<Rightarrow> error + url list option" where
  "user_journey df u =
     (let user_data = sort_values timestamp (filter (\<lambda>(l, e). user_id e = u) df) in
      case filter (\<lambda>(l, e). page_url e = ''/register'') user_data of
        [] \<Rightarrow> Inr None
      | (registration_index, r) # rs \<Rightarrow>
          (case loc_upto user_data (registration_index - 1) of
             Inl err \<Rightarrow> Inl err
           | Inr rows \<Rightarrow>
               (let articles_before_registration = map (\<lambda>(l, e). page_url e) rows in
                if articles_before_registration \<noteq> [] then Inr (Some articles_before_registration)
                else Inr None)))"

definition journey_step ::
  "event frame \<Rightarrow> string \<Rightarrow> error + (string, url list) dict \<Rightarrow> error + (string, url list) dict" where
  "journey_step df u acc =
     (case acc of
        Inl err \<Rightarrow> Inl err
      | Inr journeys \<Rightarrow>
          (case user_journey df u of
             Inl err \<Rightarrow> Inl err
           | Inr None \<Rightarrow> Inr journeys
           | Inr (Some journey) \<Rightarrow> Inr (dict_set journeys u journey)))"

definition extract_journeys :: "event frame \<Rightarrow> error + (string, url list) dict" where
  "extract_journeys df = fold (journey_step df) (unique (map (\<lambda>(l, e). user_id e) df)) (Inr [])"

section \<open>Aggregation and the result table\<close>

text \<open>
  The inner loop \<^verbatim>\<open>article_scores[article] = article_scores.get(article, 0) + score\<close>
  and the loop over \<^verbatim>\<open>journeys.values()\<close> around it.
\<close>

definition add_scores :: "scores \<Rightarrow> scores \<Rightarrow> scores" where
  "add_scores journey_scores article_scores =
     fold (\<lambda>(article, score) acc. dict_set acc article (dict_get acc article 0 + score))
       journey_scores article_scores"

definition score_step :: "string \<Rightarrow> url list \<Rightarrow> error + scores \<Rightarrow> error + scores" where
  "score_step method journey acc =
     (case acc of
        Inl err \<Rightarrow> Inl err
      | Inr article_scores \<Rightarrow>
          (case calculate_attribution_scores journey method of
             Inl err \<Rightarrow> Inl err
           | Inr journey_scores \<Rightarrow> Inr (add_scores journey_scores article_scores)))"

definition aggregate :: "(string, url list) dict \<Rightarrow> string \<Rightarrow> error + scores" where
  "aggregate journeys method = fold (score_step method) (map snd journeys) (Inr [])"

text \<open>
  The rows of the result: one per aggregated URL that starts with \<^verbatim>\<open>/articles/\<close>,
  named by \<^verbatim>\<open>url.split("/")[-1]\<close>. \<^verbatim>\<open>split\<close> never returns an empty list, so the index
  \<^verbatim>\<open>[-1]\<close> cannot raise and is the last element.
\<close>

definition make_results :: "scores \<Rightarrow> influence_row list" where
  "make_results article_scores =
     map (\<lambda>(url, score). \<lparr>row_name = last (str_split CHR ''/'' url), row_url = url, total = score\<rparr>)
       (filter (\<lambda>(url, score). startswith url ''/articles/'') article_scores)"

text \<open>
  \<^verbatim>\<open>analyze_user_journeys(input_path, attribution_method)\<close>, on the rows of the file
  at \<^verbatim>\<open>input_path\<close>.
\<close>

definition analyze_user_journeys :: "event list \<Rightarrow> string \<Rightarrow> error + influence_row list" where
  "analyze_user_journeys hitlog attribution_method =
     (case extract_journeys (read_csv hitlog) of
        Inl err \<Rightarrow> Inl err
      | Inr journeys \<Rightarrow>
          (case aggregate journeys attribution_method of
             Inl err \<Rightarrow> Inl err
           | Inr article_scores \<Rightarrow>
               (let results = make_results article_scores in
                if results = [] then Inr []
                else Inr (sort_values_desc total results))))"

section \<open>Reference notions\<close>

text \<open>
  The notions below are not code of the pipeline; the theorems compare the code with them.
  Those named \<open>spec_...\<close> follow the words of the specification.

  \<open>assign_all\<close> stores a list of key/value pairs into a dict one after the other, a
  later pair overwriting an earlier one with the same key.
\<close>

definition assign_all :: "('k \<times> 'v) list \<Rightarrow> ('k, 'v) dict \<Rightarrow> ('k, 'v) dict" where
  "assign_all ps d = fold (\<lambda>(k, v) d. dict_set d k v) ps d"

text \<open>
  The credit that the policy table of the specification gives position \<open>i\<close> (from 0) of a
  journey of length \<open>n\<close>: \<^verbatim>\<open>count\<close> 1 for every position; \<^verbatim>\<open>first_touch\<close> 1 for position
  0; \<^verbatim>\<open>last_touch\<close> 1 for position \<open>n - 1\<close>; \<^verbatim>\<open>linear\<close> \<open>1/n\<close>; \<^verbatim>\<open>position_based\<close> 1
  for a single page, else 0.4 for the first and the last position and 0.2 for each
  middle one; \<^verbatim>\<open>time_decay\<close> 1 for a single page, else \<open>2^i\<close> over the sum of \<open>2^j\<close> for
  \<open>j\<close> from 0 to \<open>n - 1\<close>. A position without credit, and every position under a
  name that is not in the table, has none.
\<close>

definition spec_position_credit :: "string \<Rightarrow> nat \<Rightarrow> nat \<Rightarrow> rat option" where
  "spec_position_credit method n i =
     (if method = ''count'' then Some 1
      else if method = ''first_touch'' then (if i = 0 then Some 1 else None)
      else if method = ''last_touch'' then (if i = n - 1 then Some 1 else None)
      else if method = ''linear'' then Some (1 / of_nat n)
      else if method = ''position_based'' then
        (if n = 1 then Some 1
         else if i = 0 then Some (4 / 10)
         else if i = n - 1 then Some (4 / 10)
         else Some (2 / 10))
      else if method = ''time_decay'' then
        (if n = 1 then Some 1
         else Some (2 ^ i / (\<Sum>j = 0..n - 1. 2 ^ j)))
      else None)"

text \<open>The credited positions of a journey in order, each as its URL and its credit.\<close>

definition spec_position_credits :: "url list \<Rightarrow> string \<Rightarrow> (url \<times> rat) list" where
  "spec_position_credits journey method =
     List.map_filter
       (\<lambda>(i, a). map_option (\<lambda>c. (a, c)) (spec_position_credit method (length journey) i))
       (enumerate 0 journey)"

text \<open>
  The journey of a user as the specification words it: the URLs of the events that
  stand before the first registration event in the time-sorted sequence of the user's
  events.
\<close>

definition spec_journey :: "event list \<Rightarrow> string \<Rightarrow> url list" where
  "spec_journey hitlog u =
     map page_url
       (takeWhile (\<lambda>e. page_url e \<noteq> ''/register'')
          (sort_key timestamp (filter (\<lambda>e. user_id e = u) hitlog)))"

text \<open>The final \<^verbatim>\<open>/\<close>-separated segment of a URL: what follows its last slash.\<close>

definition spec_final_segment :: "url \<Rightarrow> string" where
  "spec_final_segment u = rev (takeWhile (\<lambda>c. c \<noteq> CHR ''/'') (rev u))"

section \<open>Dicts and repeated assignment\<close>


lemma map_of_dict_set: "map_of (dict_set d k v) = (map_of d)(k \<mapsto> v)"
  by (induction d k v rule: dict_set.induct) auto

lemma keys_dict_set: "fst ` set (dict_set d k v) = insert k (fst ` set d)"
  by (induction d k v rule: dict_set.induct) auto

lemma distinct_dict_set: "distinct (map fst d) \<Longrightarrow> distinct (map fst (dict_set d k v))"
  by (induction d k v rule: dict_set.induct) (auto simp: keys_dict_set)

lemma dict_set_new: "k \<notin> fst ` set d \<Longrightarrow> dict_set d k v = d @ [(k, v)]"
  by (induction d k v rule: dict_set.induct) auto

lemma assign_all_Nil [simp]: "assign_all [] d = d"
  by (simp add: assign_all_def)

lemma assign_all_Cons [simp]: "assign_all ((k, v) # ps) d = assign_all ps (dict_set d k v)"
  by (simp add: assign_all_def)

lemma assign_all_append: "assign_all (ps @ qs) d = assign_all qs (assign_all ps d)"
  by (simp add: assign_all_def)

lemma map_of_assign_all: "map_of (assign_all ps d) = map_of (rev ps @ d)"
proof (induction ps arbitrary: d)
  case Nil
  show ?case by simp
next
  case (Cons p ps)
  obtain k v where p: "p = (k, v)" by (cases p)
  show ?case
    unfolding p assign_all_Cons Cons.IH
    by (rule ext) (simp add: map_of_dict_set map_add_def split: option.splits)
qed

lemma distinct_assign_all: "distinct (map fst d) \<Longrightarrow> distinct (map fst (assign_all ps d))"
proof (induction ps arbitrary: d)
  case Nil
  then show ?case by simp
next
  case (Cons p ps)
  then show ?case by (cases p) (simp add: distinct_dict_set)
qed

lemma assign_all_distinct:
  "distinct (map fst ps) \<Longrightarrow> fst ` set ps \<inter> fst ` set d = {} \<Longrightarrow> assign_all ps d = d @ ps"
proof (induction ps arbitrary: d)
  case Nil
  then show ?case by simp
next
  case (Cons p ps)
  obtain k v where p: "p = (k, v)" by (cases p)
  from Cons.prems have new: "k \<notin> fst ` set d" by (auto simp: p)
  from Cons.prems have "fst ` set ps \<inter> fst ` set (d @ [(k, v)]) = {}"
    by (auto simp: p)
  with Cons.prems have "assign_all ps (d @ [(k, v)]) = (d @ [(k, v)]) @ ps"
    by (intro Cons.IH) simp_all
  then show ?case by (simp add: p dict_set_new [OF new])
qed

lemma fold_const_assign:
  "fold (\<lambda>article scores. dict_set scores article c) journey d
     = assign_all (map (\<lambda>a. (a, c)) journey) d"
  by (induction journey arbitrary: d) simp_all


lemma fold_position_based_assign:
  "fold (position_based_step n) ias d
     = assign_all (map (\<lambda>(i, a). (a, if i = 0 \<or> i = n - 1 then 4 / 10 else 2 / 10)) ias) d"
proof (induction ias arbitrary: d)
  case Nil
  show ?case by simp
next
  case (Cons p ias)
  then show ?case by (cases p) (simp add: position_based_step_def)
qed

lemma fold_time_decay_assign:
  assumes "total_weight \<noteq> 0"
  shows "fold (time_decay_step total_weight) ias (Inr d)
     = Inr (assign_all (map (\<lambda>(i, a). (a, of_int (2 ^ i) / of_int total_weight)) ias) d)"
proof (induction ias arbitrary: d)
  case Nil
  show ?case by simp
next
  case (Cons p ias)
  with assms show ?case by (cases p) (simp add: time_decay_step_def truediv_def)
qed

lemma total_weight_eq: "sum_list (map (\<lambda>i. 2 ^ i) [0..<n]) = (2::int) ^ n - 1"
  by (induction n) simp_all

lemma total_weight_sum: "0 < n \<Longrightarrow> (\<Sum>j = 0..n - 1. (2::rat) ^ j) = 2 ^ n - 1"
proof (induction n)
  case 0
  then show ?case by simp
next
  case (Suc n)
  then show ?case by (cases n) simp_all
qed

lemma map_filter_all_Some: "(\<And>x. x \<in> set xs \<Longrightarrow> f x = Some (g x)) \<Longrightarrow> List.map_filter f xs = map g xs"
  by (induction xs) (simp_all add: List.map_filter_simps)

lemma map_filter_all_None: "(\<And>x. x \<in> set xs \<Longrightarrow> f x = None) \<Longrightarrow> List.map_filter f xs = []"
  by (induction xs) (simp_all add: List.map_filter_simps)

lemma map_filter_append: "List.map_filter f (xs @ ys) = List.map_filter f xs @ List.map_filter f ys"
  by (simp add: List.map_filter_def)

lemma enumerate_index_bounds: "(i, a) \<in> set (enumerate k xs) \<Longrightarrow> k \<le> i \<and> i < k + length xs"
  by (auto simp: in_set_enumerate_eq)

lemma py_index_first: "py_index (a # as) 0 = Inr a"
  by (simp add: py_index_def)

lemma py_index_last: "xs \<noteq> [] \<Longrightarrow> py_index xs (- 1) = Inr (last xs)"
  by (cases xs rule: rev_cases) (auto simp: py_index_def nth_append)

lemma map_enumerate_snd: "map (\<lambda>(i, a). g a) (enumerate k xs) = map g xs"
  by (induction xs arbitrary: k) simp_all

lemma spec_position_credits_count:
  "spec_position_credits journey ''count'' = map (\<lambda>a. (a, 1)) journey"
proof -
  have "spec_position_credits journey ''count'' = map (\<lambda>(i, a). (a, 1)) (enumerate 0 journey)"
    unfolding spec_position_credits_def
    by (rule map_filter_all_Some) (auto simp: spec_position_credit_def)
  also have "\<dots> = map (\<lambda>a. (a, 1)) journey"
    by (simp add: map_enumerate_snd)
  finally show ?thesis .
qed


lemma spec_position_credits_linear:
  "spec_position_credits journey ''linear'' = map (\<lambda>a. (a, 1 / of_nat (length journey))) journey"
proof -
  have "spec_position_credits journey ''linear''
          = map (\<lambda>(i, a). (a, 1 / of_nat (length journey))) (enumerate 0 journey)"
    unfolding spec_position_credits_def
    by (rule map_filter_all_Some) (auto simp: spec_position_credit_def)
  then show ?thesis by (simp add: map_enumerate_snd)
qed

lemma spec_position_credits_first_touch:
  "spec_position_credits (a # as) ''first_touch'' = [(a, 1)]"
proof -
  have "List.map_filter (\<lambda>(i, b). map_option (\<lambda>c. (b, c))
          (spec_position_credit ''first_touch'' (Suc (length as)) i)) (enumerate (Suc 0) as) = []"
    by (rule map_filter_all_None)
       (auto simp: spec_position_credit_def dest!: enumerate_index_bounds)
  then show ?thesis
    by (simp add: spec_position_credits_def List.map_filter_simps spec_position_credit_def)
qed

lemma spec_position_credits_last_touch:
  "spec_position_credits (as @ [a]) ''last_touch'' = [(a, 1)]"
proof -
  have "List.map_filter (\<lambda>(i, b). map_option (\<lambda>c. (b, c))
          (spec_position_credit ''last_touch'' (Suc (length as)) i)) (enumerate 0 as) = []"
    by (rule map_filter_all_None)
       (auto simp: spec_position_credit_def dest!: enumerate_index_bounds)
  then show ?thesis
    by (simp add: spec_position_credits_def enumerate_append_eq map_filter_append
          List.map_filter_simps spec_position_credit_def)
qed

lemma spec_position_credits_singleton:
  "method = ''position_based'' \<or> method = ''time_decay'' \<Longrightarrow>
   spec_position_credits [a] method = [(a, 1)]"
  by (auto simp: spec_position_credits_def List.map_filter_simps spec_position_credit_def)

lemma spec_position_credits_position_based:
  "length journey \<noteq> 1 \<Longrightarrow>
   spec_position_credits journey ''position_based''
     = map (\<lambda>(i, a). (a, if i = 0 \<or> i = length journey - 1 then 4 / 10 else 2 / 10))
         (enumerate 0 journey)"
  unfolding spec_position_credits_def
  by (rule map_filter_all_Some) (auto simp: spec_position_credit_def)

lemma spec_position_credits_time_decay:
  "length journey \<noteq> 1 \<Longrightarrow>
   spec_position_credits journey ''time_decay''
     = map (\<lambda>(i, a). (a, 2 ^ i / (\<Sum>j = 0..length journey - 1. 2 ^ j)))
         (enumerate 0 journey)"
  unfolding spec_position_credits_def
  by (rule map_filter_all_Some) (auto simp: spec_position_credit_def)

lemma spec_position_credits_unknown:
  "method \<noteq> ''count'' \<Longrightarrow> method \<noteq> ''first_touch'' \<Longrightarrow> method \<noteq> ''last_touch'' \<Longrightarrow>
   method \<noteq> ''linear'' \<Longrightarrow> method \<noteq> ''position_based'' \<Longrightarrow> method \<noteq> ''time_decay'' \<Longrightarrow>
   spec_position_credits journey method = []"
  unfolding spec_position_credits_def
  by (rule map_filter_all_None) (auto simp: spec_position_credit_def)

lemma scores_assigned:
  "calculate_attribution_scores journey method
     = Inr (assign_all (spec_position_credits journey method) [])"
proof (cases "journey = []")
  case True
  then show ?thesis
    by (simp add: calculate_attribution_scores_def spec_position_credits_def List.map_filter_simps)
next
  case ne: False
  then obtain a as where Cons: "journey = a # as" by (cases journey) auto
  from ne obtain bs b where snoc: "journey = bs @ [b]" by (cases journey rule: rev_cases) auto
  have n0: "length journey \<noteq> 0" using ne by simp
  have tw: "sum_list (map (\<lambda>i. 2 ^ i) [0..<length journey]) \<noteq> (0::int)"
  proof -
    have "(1::int) < 2 ^ length journey"
      using n0 by (intro one_less_power) simp_all
    then show ?thesis by (simp add: total_weight_eq)
  qed
  consider (count) "method = ''count''" | (first) "method = ''first_touch''"
    | (last) "method = ''last_touch''" | (linear) "method = ''linear''"
    | (pos) "method = ''position_based''" | (decay) "method = ''time_decay''"
    | (other) "method \<noteq> ''count''" "method \<noteq> ''first_touch''" "method \<noteq> ''last_touch''"
        "method \<noteq> ''linear''" "method \<noteq> ''position_based''" "method \<noteq> ''time_decay''"
    by argo
  then show ?thesis
  proof cases
    case count
    with ne show ?thesis
      by (simp add: calculate_attribution_scores_def fold_const_assign spec_position_credits_count)
  next
    case first
    then show ?thesis
      unfolding Cons
      by (simp add: calculate_attribution_scores_def py_index_first spec_position_credits_first_touch)
  next
    case last
    have "py_index journey (- 1) = Inr b"
      using py_index_last [OF ne] by (simp add: snoc)
    with last ne show ?thesis
      by (simp add: calculate_attribution_scores_def snoc spec_position_credits_last_touch)
  next
    case linear
    with ne show ?thesis
      by (simp add: calculate_attribution_scores_def truediv_def fold_const_assign
            spec_position_credits_linear)
  next
    case pos
    show ?thesis
    proof (cases "length journey = 1")
      case True
      then have "as = []" by (simp add: Cons)
      with pos show ?thesis
        by (simp add: Cons calculate_attribution_scores_def py_index_first
              spec_position_credits_singleton)
    next
      case False
      with pos ne show ?thesis
        by (simp add: calculate_attribution_scores_def fold_position_based_assign
              spec_position_credits_position_based)
    qed
  next
    case decay
    show ?thesis
    proof (cases "length journey = 1")
      case True
      then have "as = []" by (simp add: Cons)
      with decay show ?thesis
        by (simp add: Cons calculate_attribution_scores_def py_index_first
              spec_position_credits_singleton)
    next
      case False
      have "(\<Sum>j = 0..length journey - 1. (2::rat) ^ j) = of_int (2 ^ length journey - 1)"
        using n0 total_weight_sum [of "length journey"] by simp
      with False decay ne tw show ?thesis
        by (simp add: calculate_attribution_scores_def Let_def fold_time_decay_assign
              spec_position_credits_time_decay total_weight_eq)
    qed
  next
    case other
    with ne show ?thesis
      by (simp add: calculate_attribution_scores_def spec_position_credits_unknown)
  qed
qed

section \<open>The scorer on the empty journey\<close>

text \<open>
  Claim C8. For every method name, recognised or not, \<open>calculate_attribution_scores\<close>
  applied to the empty journey returns the empty mapping: the test \<^verbatim>\<open>if not journey\<close>
  comes before the dispatch on the method.
\<close>

theorem empty_journey_empty_scores:
  "calculate_attribution_scores [] method = Inr []"
  by (simp add: calculate_attribution_scores_def)

section \<open>Positional credits and their sums\<close>

lemma enumerate_credit_zip:
  "map (\<lambda>(i, a). (a, f i)) (enumerate k xs) = zip xs (map f [k..<k + length xs])"
proof (induction xs arbitrary: k)
  case Nil
  show ?case by simp
next
  case (Cons x xs)
  have "k < k + length (x # xs)" by simp
  then have "[k..<k + length (x # xs)] = k # [Suc k..<k + length (x # xs)]"
    by (rule upt_conv_Cons)
  then have "[k..<k + length (x # xs)] = k # [Suc k..<Suc k + length xs]"
    by simp
  with Cons [of "Suc k"] show ?case by simp
qed

lemma assign_all_fresh:
  "distinct xs \<Longrightarrow> length ys = length xs \<Longrightarrow> assign_all (zip xs ys) [] = zip xs ys"
  using assign_all_distinct [of "zip xs ys" "[]"] by simp

lemma map_of_const: "map_of (map (\<lambda>a. (a, c)) xs) u = (if u \<in> set xs then Some c else None)"
  by (induction xs) simp_all

lemma scores_distinct_positional:
  assumes "distinct journey"
  shows "assign_all (map (\<lambda>(i, a). (a, f i)) (enumerate 0 journey)) []
           = zip journey (map f [0..<length journey])"
  using assms by (simp add: enumerate_credit_zip assign_all_fresh)

lemma credit_sum_zip:
  "length ys = length xs \<Longrightarrow> credit_sum (zip xs ys) = sum_list ys"
  by (simp add: credit_sum_def)

lemma sum_list_powers: "sum_list (map (\<lambda>i. 2 ^ i) [0..<n]) = (2::rat) ^ n - 1"
  by (induction n) simp_all

lemma time_decay_weights_sum:
  assumes "0 < n"
  shows "sum_list (map (\<lambda>i. 2 ^ i / (\<Sum>j = 0..n - 1. (2::rat) ^ j)) [0..<n]) = 1"
proof -
  let ?T = "(\<Sum>j = 0..n - 1. (2::rat) ^ j)"
  have T: "?T = 2 ^ n - 1" using assms by (rule total_weight_sum)
  have "(1::rat) < 2 ^ n" using assms by (intro one_less_power) simp_all
  then have nz: "?T \<noteq> 0" unfolding T by simp
  have "sum_list (map (\<lambda>i. 2 ^ i / ?T) [0..<n]) = sum_list (map (\<lambda>i. 2 ^ i * (1 / ?T)) [0..<n])"
    by simp
  also have "\<dots> = sum_list (map (\<lambda>i. 2 ^ i) [0..<n]) * (1 / ?T)"
    by (rule sum_list_mult_const)
  also have "\<dots> = 1" using nz unfolding sum_list_powers T by simp
  finally show ?thesis .
qed

section \<open>Method names outside the dispatch\<close>

text \<open>
  Claim C3, as amended. For every non-empty journey, \<open>calculate_attribution_scores\<close> with a
  method name outside \<^verbatim>\<open>count\<close>, \<^verbatim>\<open>first_touch\<close>, \<^verbatim>\<open>last_touch\<close>, \<^verbatim>\<open>linear\<close>,
  \<^verbatim>\<open>position_based\<close>, \<^verbatim>\<open>time_decay\<close> raises nothing: it returns normally, and what it
  returns is the empty mapping.
\<close>

theorem unknown_method_empty_scores:
  assumes "journey \<noteq> []"
    and "method \<notin> {''count'', ''first_touch'', ''last_touch'', ''linear'',
                    ''position_based'', ''time_decay''}"
  shows "calculate_attribution_scores journey method = Inr []"
  using assms by (simp add: calculate_attribution_scores_def)

text \<open>The amended C3 at the journey \<^verbatim>\<open>["/a1", "/a2"]\<close> and the name \<^verbatim>\<open>median_touch\<close>.\<close>

theorem unknown_method_empty_scores_witness:
  "[''/a1'', ''/a2''] \<noteq> []
   \<and> ''median_touch'' \<notin> {''count'', ''first_touch'', ''last_touch'', ''linear'',
                    ''position_based'', ''time_decay''}
   \<and> calculate_attribution_scores [''/a1'', ''/a2''] ''median_touch'' = Inr []"
  using unknown_method_empty_scores [of "[''/a1'', ''/a2'']" "''median_touch''"] by simp

text \<open>
  Claim C3 as stated asks for a failure. On the journey \<^verbatim>\<open>["/a1"]\<close> with the name
  \<^verbatim>\<open>bogus\<close> the function returns the empty mapping and no error.
\<close>

theorem unknown_method_counterexample:
  "calculate_attribution_scores [''/a1''] ''bogus'' = Inr []
   \<and> \<not> isl (calculate_attribution_scores [''/a1''] ''bogus'')"
  by (simp add: calculate_attribution_scores_def)

section \<open>Journeys of pairwise distinct URLs\<close>

lemma scores_time_decay_distinct:
  assumes "distinct journey" "1 < length journey"
  shows "calculate_attribution_scores journey ''time_decay''
           = Inr (zip journey
                (map (\<lambda>i. 2 ^ i / (\<Sum>j = 0..length journey - 1. 2 ^ j)) [0..<length journey]))"
  using assms
  by (simp add: scores_assigned spec_position_credits_time_decay scores_distinct_positional)

lemma scores_position_based_distinct:
  assumes "distinct journey" "1 < length journey"
  shows "calculate_attribution_scores journey ''position_based''
           = Inr (zip journey
                (map (\<lambda>i. if i = 0 \<or> i = length journey - 1 then 4 / 10 else 2 / 10)
                   [0..<length journey]))"
  using assms
  by (simp add: scores_assigned spec_position_credits_position_based scores_distinct_positional)

lemma scores_singleton:
  "method = ''position_based'' \<or> method = ''time_decay'' \<Longrightarrow>
   calculate_attribution_scores [a] method = Inr [(a, 1)]"
  by (simp add: scores_assigned spec_position_credits_singleton)

lemma lookup_positional:
  assumes "distinct journey" "i < length journey"
  shows "map_of (zip journey (map f [0..<length journey])) (journey ! i) = Some (f i)"
  using map_of_zip_nth [of journey "map f [0..<length journey]" i] assms by simp

text \<open>
  Claim C5. Under \<^verbatim>\<open>time_decay\<close>, a journey of \<open>n > 1\<close> pairwise distinct URLs gets one
  entry per URL, in journey order, and position \<open>i\<close> has the credit \<open>2^i\<close> divided by
  the sum of \<open>2^j\<close> for \<open>j\<close> from 0 to \<open>n - 1\<close>; a journey of one URL gets 1 for it; and
  \<^verbatim>\<open>["/a1", "/a2", "/a3"]\<close> gets 1/7, 2/7 and 4/7.
\<close>

theorem time_decay_credits:
  "(distinct journey \<and> 1 < length journey \<and> i < length journey \<longrightarrow>
      (\<exists>d. calculate_attribution_scores journey ''time_decay'' = Inr d
           \<and> map fst d = journey
           \<and> map_of d (journey ! i) = Some (2 ^ i / (\<Sum>j = 0..length journey - 1. 2 ^ j))))
   \<and> calculate_attribution_scores [a] ''time_decay'' = Inr [(a, 1)]
   \<and> calculate_attribution_scores [''/a1'', ''/a2'', ''/a3''] ''time_decay''
        = Inr [(''/a1'', 1 / 7), (''/a2'', 2 / 7), (''/a3'', 4 / 7)]"
proof (intro conjI impI)
  assume h: "distinct journey \<and> 1 < length journey \<and> i < length journey"
  let ?f = "\<lambda>i. 2 ^ i / (\<Sum>j = 0..length journey - 1. (2::rat) ^ j)"
  let ?d = "zip journey (map ?f [0..<length journey])"
  have "calculate_attribution_scores journey ''time_decay'' = Inr ?d"
    using h by (simp add: scores_time_decay_distinct)
  moreover have "map fst ?d = journey" by simp
  moreover have "map_of ?d (journey ! i) = Some (?f i)"
    using h by (intro lookup_positional) simp_all
  ultimately show "\<exists>d. calculate_attribution_scores journey ''time_decay'' = Inr d
           \<and> map fst d = journey
           \<and> map_of d (journey ! i) = Some (2 ^ i / (\<Sum>j = 0..length journey - 1. 2 ^ j))"
    by blast
next
  show "calculate_attribution_scores [a] ''time_decay'' = Inr [(a, 1)]"
    by (simp add: scores_singleton)
next
  have "{0..Suc (Suc 0)} = {0, 1, 2}" by auto
  then have "(\<Sum>j = 0..Suc (Suc 0). (2::rat) ^ j) = 7" by simp
  then show "calculate_attribution_scores [''/a1'', ''/a2'', ''/a3''] ''time_decay''
        = Inr [(''/a1'', 1 / 7), (''/a2'', 2 / 7), (''/a3'', 4 / 7)]"
    by (simp add: scores_time_decay_distinct upt_rec)
qed

text \<open>Claim C5 at the journey \<^verbatim>\<open>["/x", "/y"]\<close> and position 1, whose credit is 2/3.\<close>

theorem time_decay_credits_witness:
  "distinct [''/x'', ''/y''] \<and> 1 < length [''/x'', ''/y''] \<and> 1 < length [''/x'', ''/y'']
   \<and> (\<exists>d. calculate_attribution_scores [''/x'', ''/y''] ''time_decay'' = Inr d
         \<and> map fst d = [''/x'', ''/y'']
         \<and> map_of d ''/y'' = Some (2 / 3))"
proof -
  have "{0..Suc 0} = {0, 1}" by auto
  then have "(\<Sum>j = 0..Suc 0. (2::rat) ^ j) = 3" by simp
  then show ?thesis
    using time_decay_credits [of "[''/x'', ''/y'']" 1] by simp
qed

text \<open>
  Claim C6. Under \<^verbatim>\<open>position_based\<close>, a journey of \<open>n > 1\<close> pairwise distinct URLs gets
  one entry per URL, in journey order, with 0.4 for position 0, 0.4 for position
  \<open>n - 1\<close> and 0.2 for every position between them; a journey of one URL gets 1 for
  it; and \<^verbatim>\<open>["/a1", "/a2", "/a3"]\<close> gets 0.4, 0.2 and 0.4.
\<close>

theorem position_based_credits:
  "(distinct journey \<and> 1 < length journey \<longrightarrow>
      (\<exists>d. calculate_attribution_scores journey ''position_based'' = Inr d
           \<and> map fst d = journey
           \<and> map_of d (journey ! 0) = Some (4 / 10)
           \<and> map_of d (journey ! (length journey - 1)) = Some (4 / 10)
           \<and> (0 < i \<and> i < length journey - 1 \<longrightarrow> map_of d (journey ! i) = Some (2 / 10))))
   \<and> calculate_attribution_scores [a] ''position_based'' = Inr [(a, 1)]
   \<and> calculate_attribution_scores [''/a1'', ''/a2'', ''/a3''] ''position_based''
        = Inr [(''/a1'', 4 / 10), (''/a2'', 2 / 10), (''/a3'', 4 / 10)]"
proof (intro conjI impI)
  assume h: "distinct journey \<and> 1 < length journey"
  let ?f = "\<lambda>i. if i = 0 \<or> i = length journey - 1 then 4 / 10 else (2 / 10 :: rat)"
  let ?d = "zip journey (map ?f [0..<length journey])"
  have "calculate_attribution_scores journey ''position_based'' = Inr ?d"
    using h by (simp add: scores_position_based_distinct)
  moreover have "map fst ?d = journey" by simp
  moreover have "map_of ?d (journey ! 0) = Some (?f 0)"
    using h by (intro lookup_positional) auto
  moreover have "map_of ?d (journey ! (length journey - 1)) = Some (?f (length journey - 1))"
    using h by (intro lookup_positional) auto
  moreover have "0 < i \<and> i < length journey - 1 \<longrightarrow> map_of ?d (journey ! i) = Some (2 / 10)"
  proof
    assume i: "0 < i \<and> i < length journey - 1"
    then have "map_of ?d (journey ! i) = Some (?f i)"
      using h by (intro lookup_positional) auto
    with i show "map_of ?d (journey ! i) = Some (2 / 10)" by simp
  qed
  ultimately show "\<exists>d. calculate_attribution_scores journey ''position_based'' = Inr d
           \<and> map fst d = journey
           \<and> map_of d (journey ! 0) = Some (4 / 10)
           \<and> map_of d (journey ! (length journey - 1)) = Some (4 / 10)
           \<and> (0 < i \<and> i < length journey - 1 \<longrightarrow> map_of d (journey ! i) = Some (2 / 10))"
    by (intro exI [of _ ?d]) simp
next
  show "calculate_attribution_scores [a] ''position_based'' = Inr [(a, 1)]"
    by (simp add: scores_singleton)
next
  show "calculate_attribution_scores [''/a1'', ''/a2'', ''/a3''] ''position_based''
        = Inr [(''/a1'', 4 / 10), (''/a2'', 2 / 10), (''/a3'', 4 / 10)]"
    by (simp add: scores_position_based_distinct upt_rec)
qed

text \<open>Claim C6 at a journey of four URLs and its middle position 2.\<close>

theorem position_based_credits_witness:
  "distinct [''/p'', ''/q'', ''/r'', ''/s''] \<and> 1 < length [''/p'', ''/q'', ''/r'', ''/s'']
   \<and> (\<exists>d. calculate_attribution_scores [''/p'', ''/q'', ''/r'', ''/s''] ''position_based'' = Inr d
         \<and> map fst d = [''/p'', ''/q'', ''/r'', ''/s'']
         \<and> map_of d ''/p'' = Some (4 / 10)
         \<and> map_of d ''/s'' = Some (4 / 10)
         \<and> 0 < (2::nat) \<and> (2::nat) < length [''/p'', ''/q'', ''/r'', ''/s''] - 1
         \<and> map_of d ''/r'' = Some (2 / 10))"
  using position_based_credits [of "[''/p'', ''/q'', ''/r'', ''/s'']" 2] by simp


section \<open>Conservation of credit\<close>

lemma scores_first_touch: "calculate_attribution_scores (a # as) ''first_touch'' = Inr [(a, 1)]"
  by (simp add: scores_assigned spec_position_credits_first_touch)

lemma scores_last_touch: "calculate_attribution_scores (as @ [a]) ''last_touch'' = Inr [(a, 1)]"
  by (simp add: scores_assigned spec_position_credits_last_touch)

lemma scores_linear_distinct:
  assumes "distinct journey"
  shows "calculate_attribution_scores journey ''linear''
           = Inr (map (\<lambda>a. (a, 1 / of_nat (length journey))) journey)"
proof -
  let ?ps = "map (\<lambda>a. (a, 1 / rat_of_nat (length journey))) journey"
  have "map fst ?ps = journey" by (simp add: comp_def)
  with assms have "assign_all ?ps [] = [] @ ?ps"
    by (intro assign_all_distinct) simp_all
  then show ?thesis by (simp add: scores_assigned spec_position_credits_linear)
qed

lemma credit_sum_linear:
  "journey \<noteq> [] \<Longrightarrow> credit_sum (map (\<lambda>a. (a, 1 / of_nat (length journey))) journey) = 1"
  by (simp add: credit_sum_def comp_def sum_list_triv)

text \<open>
  Claim C1, as amended. For every non-empty journey the credits returned sum to 1
  under \<^verbatim>\<open>first_touch\<close> and \<^verbatim>\<open>last_touch\<close>; under \<^verbatim>\<open>linear\<close> and \<^verbatim>\<open>time_decay\<close> when
  the URLs of the journey are pairwise distinct; under \<^verbatim>\<open>position_based\<close> when they are
  pairwise distinct and the journey has length 1 or 3.
\<close>

theorem credit_sum_one:
  assumes "journey \<noteq> []"
    and "method = ''first_touch'' \<or> method = ''last_touch''
         \<or> (distinct journey \<and> (method = ''linear'' \<or> method = ''time_decay''
               \<or> (method = ''position_based'' \<and> (length journey = 1 \<or> length journey = 3))))"
  shows "\<exists>d. calculate_attribution_scores journey method = Inr d \<and> credit_sum d = 1"
proof -
  from assms(1) obtain a as where Cons: "journey = a # as" by (cases journey) auto
  from assms(1) obtain bs b where snoc: "journey = bs @ [b]"
    by (cases journey rule: rev_cases) auto
  consider (first) "method = ''first_touch''" | (last) "method = ''last_touch''"
    | (linear) "distinct journey" "method = ''linear''"
    | (decay) "distinct journey" "method = ''time_decay''"
    | (single) "method = ''position_based''" "length journey = 1"
    | (three) "distinct journey" "method = ''position_based''" "length journey = 3"
    using assms(2) by argo
  then show ?thesis
  proof cases
    case first
    then show ?thesis by (simp add: Cons scores_first_touch credit_sum_def)
  next
    case last
    then show ?thesis by (simp add: snoc scores_last_touch credit_sum_def)
  next
    case linear
    with assms(1) show ?thesis by (simp add: scores_linear_distinct credit_sum_linear)
  next
    case decay
    show ?thesis
    proof (cases "length journey = 1")
      case True
      then have "journey = [a]" by (simp add: Cons)
      with decay show ?thesis by (simp add: scores_singleton credit_sum_def)
    next
      case False
      with assms(1) have n: "1 < length journey" by (cases journey) auto
      moreover from assms(1) have "0 < length journey" by simp
      ultimately show ?thesis
        using decay
        by (simp add: scores_time_decay_distinct credit_sum_zip time_decay_weights_sum
              del: One_nat_def)
    qed
  next
    case single
    then have "journey = [a]" by (simp add: Cons)
    with single show ?thesis by (simp add: scores_singleton credit_sum_def)
  next
    case three
    then show ?thesis
      by (simp add: scores_position_based_distinct credit_sum_zip upt_rec)
  qed
qed

text \<open>The amended C1 at \<^verbatim>\<open>["/a1", "/a2", "/a3"]\<close> under \<^verbatim>\<open>time_decay\<close>.\<close>

theorem credit_sum_one_witness:
  "[''/a1'', ''/a2'', ''/a3''] \<noteq> []
   \<and> distinct [''/a1'', ''/a2'', ''/a3'']
   \<and> (\<exists>d. calculate_attribution_scores [''/a1'', ''/a2'', ''/a3''] ''time_decay'' = Inr d
         \<and> credit_sum d = 1)"
  using credit_sum_one [of "[''/a1'', ''/a2'', ''/a3'']" "''time_decay''"] by simp

text \<open>
  Claim C1 as stated asks for credits that sum to 1 within \<open>10\<^sup>-\<^sup>9\<close>. Under \<^verbatim>\<open>linear\<close> the
  journey \<^verbatim>\<open>["/a", "/a"]\<close> gets the single entry 0.5, and under \<^verbatim>\<open>position_based\<close> the
  journey \<^verbatim>\<open>["/a1", "/a2"]\<close> of two different URLs gets 0.4 and 0.4.
\<close>

theorem credit_sum_counterexample:
  "calculate_attribution_scores [''/a'', ''/a''] ''linear'' = Inr [(''/a'', 1 / 2)]
   \<and> \<not> \<bar>credit_sum [(''/a'', 1 / 2)] - 1\<bar> \<le> 1 / 10 ^ 9
   \<and> calculate_attribution_scores [''/a1'', ''/a2''] ''position_based''
        = Inr [(''/a1'', 4 / 10), (''/a2'', 4 / 10)]
   \<and> \<not> \<bar>credit_sum [(''/a1'', 4 / 10), (''/a2'', 4 / 10)] - 1\<bar> \<le> 1 / 10 ^ 9"
  by (simp add: calculate_attribution_scores_def position_based_step_def truediv_def
        credit_sum_def enumerate_eq_zip upt_rec)

section \<open>Repeated URLs\<close>

lemma map_of_rev_const:
  "map_of (rev (map (\<lambda>a. (a, c)) xs)) u = (if u \<in> set xs then Some c else None)"
  using map_of_const [of c "rev xs" u] by (simp add: rev_map)

text \<open>
  Claim C2, as amended. For every journey and every method the mapping returned has
  one entry per URL, and the value of a URL is the credit of the last credited
  position where it stands (each assignment replaces the one before), not the sum of
  its credits: under \<^verbatim>\<open>count\<close> every URL of the journey has 1 however often it occurs,
  and under \<^verbatim>\<open>position_based\<close> a URL at both positions of a journey of two gets 0.4.
\<close>

theorem repeated_url_last_credit:
  "(\<exists>d. calculate_attribution_scores journey method = Inr d
        \<and> distinct (map fst d)
        \<and> map_of d = map_of (rev (spec_position_credits journey method)))
   \<and> (\<exists>d. calculate_attribution_scores journey ''count'' = Inr d
        \<and> map_of d = (\<lambda>u. if u \<in> set journey then Some 1 else None))
   \<and> calculate_attribution_scores [u, u] ''position_based'' = Inr [(u, 4 / 10)]"
proof (intro conjI)
  show "\<exists>d. calculate_attribution_scores journey method = Inr d
        \<and> distinct (map fst d)
        \<and> map_of d = map_of (rev (spec_position_credits journey method))"
    using distinct_assign_all [of "[]" "spec_position_credits journey method"]
    by (simp add: scores_assigned map_of_assign_all)
next
  show "\<exists>d. calculate_attribution_scores journey ''count'' = Inr d
        \<and> map_of d = (\<lambda>u. if u \<in> set journey then Some 1 else None)"
    by (simp add: scores_assigned map_of_assign_all spec_position_credits_count map_of_rev_const
          fun_eq_iff)
next
  show "calculate_attribution_scores [u, u] ''position_based'' = Inr [(u, 4 / 10)]"
    by (simp add: calculate_attribution_scores_def position_based_step_def enumerate_eq_zip upt_rec)
qed

text \<open>
  The amended C2 at \<^verbatim>\<open>["/a", "/b", "/a"]\<close> under \<^verbatim>\<open>time_decay\<close>: \<^verbatim>\<open>/a\<close> keeps the 4/7
  of position 2 alone.
\<close>

theorem repeated_url_last_credit_witness:
  "\<exists>d. calculate_attribution_scores [''/a'', ''/b'', ''/a''] ''time_decay'' = Inr d
       \<and> distinct (map fst d)
       \<and> map_of d ''/a'' = Some (4 / 7) \<and> map_of d ''/b'' = Some (2 / 7)"
proof -
  have "{0..Suc (Suc 0)} = {0, 1, 2}" by auto
  then have "(\<Sum>j = 0..Suc (Suc 0). (2::rat) ^ j) = 7" by simp
  then have "spec_position_credits [''/a'', ''/b'', ''/a''] ''time_decay''
          = [(''/a'', 1 / 7), (''/b'', 2 / 7), (''/a'', 4 / 7)]"
    by (simp add: spec_position_credits_time_decay upt_rec enumerate_eq_zip)
  with repeated_url_last_credit [of "[''/a'', ''/b'', ''/a'']" "''time_decay''"]
  obtain d where d: "calculate_attribution_scores [''/a'', ''/b'', ''/a''] ''time_decay'' = Inr d"
      "distinct (map fst d)"
      "map_of d = map_of [(''/a'', 4 / 7), (''/b'', 2 / 7), (''/a'', 1 / 7)]"
    by auto
  have "map_of d ''/a'' = Some (4 / 7)" "map_of d ''/b'' = Some (2 / 7)"
    unfolding d(3) by simp_all
  with d(1,2) show ?thesis by simp
qed

text \<open>
  Claim C2 as stated asks for the sum of the credits of a repeated URL. On the journey
  \<^verbatim>\<open>["/a", "/a"]\<close> the URL gets 1 under \<^verbatim>\<open>count\<close>, not its occurrence count 2, and
  0.4 under \<^verbatim>\<open>position_based\<close>, not 0.8.
\<close>

theorem repeated_url_counterexample:
  "calculate_attribution_scores [''/a'', ''/a''] ''count'' = Inr [(''/a'', 1)]
   \<and> calculate_attribution_scores [''/a'', ''/a''] ''count'' \<noteq> Inr [(''/a'', 2)]
   \<and> calculate_attribution_scores [''/a'', ''/a''] ''position_based'' = Inr [(''/a'', 4 / 10)]
   \<and> calculate_attribution_scores [''/a'', ''/a''] ''position_based'' \<noteq> Inr [(''/a'', 8 / 10)]"
  by (simp add: calculate_attribution_scores_def position_based_step_def enumerate_eq_zip upt_rec)

section \<open>The rows of the result table\<close>

lemma str_split_nonempty: "str_split c s \<noteq> []"
  by (induction s) (auto split: list.splits)

lemma str_split_no_separator: "c \<notin> set s \<Longrightarrow> str_split c s = [s]"
  by (induction s) auto

lemma str_split_separator: "c \<in> set s \<Longrightarrow> \<exists>p q qs. str_split c s = p # q # qs"
proof (induction s)
  case Nil
  then show ?case by simp
next
  case (Cons x xs)
  show ?case
  proof (cases "x = c")
    case True
    then show ?thesis using str_split_nonempty [of c xs] by (cases "str_split c xs") auto
  next
    case False
    with Cons show ?thesis by auto
  qed
qed

lemma last_str_split: "last (str_split c s) = rev (takeWhile (\<lambda>x. x \<noteq> c) (rev s))"
proof (induction s)
  case Nil
  show ?case by simp
next
  case (Cons x xs)
  show ?case
  proof (cases "c \<in> set xs")
    case True
    then obtain p q qs where pq: "str_split c xs = p # q # qs"
      using str_split_separator by blast
    from True have "takeWhile (\<lambda>x. x \<noteq> c) (rev xs @ [x]) = takeWhile (\<lambda>x. x \<noteq> c) (rev xs)"
      by (intro takeWhile_append1 [of c]) auto
    with Cons pq show ?thesis by simp
  next
    case False
    then have "takeWhile (\<lambda>x. x \<noteq> c) (rev xs @ [x])
                 = rev xs @ takeWhile (\<lambda>x. x \<noteq> c) [x]"
      by (intro takeWhile_append2) auto
    with False show ?thesis by (simp add: str_split_no_separator)
  qed
qed

lemma make_results_name:
  "r \<in> set (make_results d) \<Longrightarrow> row_name r = spec_final_segment (row_url r)"
  by (auto simp: make_results_def spec_final_segment_def last_str_split)

lemma set_sort_values_desc: "set (sort_values_desc key rows) = set rows"
  by (simp add: sort_values_desc_def)

lemma analyze_rows_from_results:
  assumes "analyze_user_journeys hitlog m = Inr rows" "r \<in> set rows"
  shows "\<exists>d. r \<in> set (make_results d)"
  using assms
  by (auto simp: analyze_user_journeys_def Let_def set_sort_values_desc
           split: sum.splits if_splits)

lemma insort_key_map:
  "insort_key k (g x) (map g xs) = map g (insort_key (\<lambda>y. k (g y)) x xs)"
  by (induction xs) simp_all

lemma sort_key_map: "sort_key k (map g xs) = map g (sort_key (\<lambda>y. k (g y)) xs)"
  by (induction xs) (simp_all add: insort_key_map)


lemma read_csv_map: "read_csv (map g rows) = map (\<lambda>(l, e). (l, g e)) (read_csv rows)"
  by (simp add: read_csv_def zip_map2)

lemma loc_upto_map:
  "loc_upto (map (\<lambda>(l, e). (l, g e)) df) k
     = (case loc_upto df k of Inl err \<Rightarrow> Inl err
        | Inr rows \<Rightarrow> Inr (map (\<lambda>(l, e). (l, g e)) rows))"
proof -
  have "map fst (map (\<lambda>(l, e). (l, g e)) df) = map fst df"
    by (induction df) auto
  then show ?thesis
    by (simp add: loc_upto_def Let_def take_map del: map_map)
qed

lemma user_journey_map:
  assumes "\<And>e. page_url (g e) = page_url e" "\<And>e. user_id (g e) = user_id e"
    "\<And>e. timestamp (g e) = timestamp e"
  shows "user_journey (map (\<lambda>(l, e). (l, g e)) df) u = user_journey df u"
proof -
  let ?G = "map (\<lambda>(l, e). (l, g e))"
  let ?ud = "sort_values timestamp (filter (\<lambda>(l, e). user_id e = u) df)"
  have flt: "filter (\<lambda>(l, e). user_id e = u) (?G df) = ?G (filter (\<lambda>(l, e). user_id e = u) df)"
    by (induction df) (auto simp: assms)
  have srt: "sort_values timestamp (?G xs) = ?G (sort_values timestamp xs)" for xs
    unfolding sort_values_def sort_key_map
    by (simp add: case_prod_unfold assms)
  have reg: "filter (\<lambda>(l, e). page_url e = ''/register'') (?G xs)
               = ?G (filter (\<lambda>(l, e). page_url e = ''/register'') xs)" for xs
    by (induction xs) (auto simp: assms)
  have urls: "map (\<lambda>(l, e). page_url e) (?G xs) = map (\<lambda>(l, e). page_url e) xs" for xs
    by (induction xs) (auto simp: assms)
  show ?thesis
    unfolding user_journey_def flt srt reg Let_def loc_upto_map
    by (cases "filter (\<lambda>(l, e). page_url e = ''/register'') ?ud")
       (auto simp: urls assms split: sum.splits)
qed

lemma extract_journeys_map:
  assumes "\<And>e. page_url (g e) = page_url e" "\<And>e. user_id (g e) = user_id e"
    "\<And>e. timestamp (g e) = timestamp e"
  shows "extract_journeys (map (\<lambda>(l, e). (l, g e)) df) = extract_journeys df"
proof -
  have users: "map (\<lambda>(l, e). user_id e) (map (\<lambda>(l, e). (l, g e)) df) = map (\<lambda>(l, e). user_id e) df"
    by (induction df) (auto simp: assms)
  have step: "journey_step (map (\<lambda>(l, e). (l, g e)) df) = journey_step df"
    by (intro ext)
       (simp add: journey_step_def user_journey_map [of g, OF assms] split: sum.splits)
  show ?thesis
    unfolding extract_journeys_def users step ..
qed

text \<open>
  Claim C10. Every row of a result that \<open>analyze_user_journeys\<close> returns has as its
  \<^verbatim>\<open>page_name\<close> the final \<^verbatim>\<open>/\<close>-separated segment of its \<^verbatim>\<open>page_url\<close>, and the
  \<^verbatim>\<open>page_name\<close> column of the input has no influence on the outcome: replacing it by
  anything leaves the result (rows or error) the same.
\<close>

theorem page_name_from_url:
  "(analyze_user_journeys hitlog m = Inr rows \<and> r \<in> set rows \<longrightarrow>
      row_name r = spec_final_segment (row_url r))
   \<and> analyze_user_journeys (map (\<lambda>e. e\<lparr>page_name := f e\<rparr>) hitlog) m
        = analyze_user_journeys hitlog m"
proof (intro conjI impI)
  assume "analyze_user_journeys hitlog m = Inr rows \<and> r \<in> set rows"
  then obtain d where "r \<in> set (make_results d)"
    using analyze_rows_from_results by blast
  then show "row_name r = spec_final_segment (row_url r)"
    by (rule make_results_name)
next
  have "extract_journeys (read_csv (map (\<lambda>e. e\<lparr>page_name := f e\<rparr>) hitlog))
          = extract_journeys (read_csv hitlog)"
    unfolding read_csv_map by (rule extract_journeys_map) simp_all
  then show "analyze_user_journeys (map (\<lambda>e. e\<lparr>page_name := f e\<rparr>) hitlog) m
        = analyze_user_journeys hitlog m"
    by (simp add: analyze_user_journeys_def)
qed

text \<open>
  Claim C10 on a log of two articles and a registration, whose input names
  \<^verbatim>\<open>First story\<close> and \<^verbatim>\<open>Second story\<close> do not reach the result.
\<close>

theorem page_name_from_url_witness:
  "analyze_user_journeys
     [\<lparr>page_name = ''First story'', page_url = ''/articles/article1'', user_id = ''u1'', timestamp = 1\<rparr>,
      \<lparr>page_name = ''Second story'', page_url = ''/articles/article2'', user_id = ''u1'', timestamp = 2\<rparr>,
      \<lparr>page_name = ''Register'', page_url = ''/register'', user_id = ''u1'', timestamp = 3\<rparr>]
     ''time_decay''
   = Inr [\<lparr>row_name = ''article2'', row_url = ''/articles/article2'', total = 2 / 3\<rparr>,
          \<lparr>row_name = ''article1'', row_url = ''/articles/article1'', total = 1 / 3\<rparr>]
   \<and> \<lparr>row_name = ''article1'', row_url = ''/articles/article1'', total = 1 / 3\<rparr>
       \<in> set [\<lparr>row_name = ''article2'', row_url = ''/articles/article2'', total = 2 / 3\<rparr>,
              \<lparr>row_name = ''article1'', row_url = ''/articles/article1'', total = 1 / 3\<rparr>]
   \<and> row_name \<lparr>row_name = ''article1'', row_url = ''/articles/article1'', total = 1 / 3\<rparr>
       = spec_final_segment (row_url \<lparr>row_name = ''article1'', row_url = ''/articles/article1'', total = 1 / 3\<rparr>)"
proof -
  let ?log = "[\<lparr>page_name = ''First story'', page_url = ''/articles/article1'', user_id = ''u1'', timestamp = 1\<rparr>,
      \<lparr>page_name = ''Second story'', page_url = ''/articles/article2'', user_id = ''u1'', timestamp = 2\<rparr>,
      \<lparr>page_name = ''Register'', page_url = ''/register'', user_id = ''u1'', timestamp = 3\<rparr>]"
  let ?r1 = "\<lparr>row_name = ''article1'', row_url = ''/articles/article1'', total = 1 / 3\<rparr>"
  let ?rows = "[\<lparr>row_name = ''article2'', row_url = ''/articles/article2'', total = 2 / 3\<rparr>, ?r1]"
  have run: "analyze_user_journeys ?log ''time_decay'' = Inr ?rows"
    by code_simp
  have "?r1 \<in> set ?rows" by simp
  with run page_name_from_url [of ?log "''time_decay''" ?rows ?r1]
  show ?thesis by blast
qed

section \<open>What every extracted journey satisfies\<close>

lemma fold_journey_step_error: "fold (journey_step df) us (Inl err) = Inl err"
  by (induction us) (simp_all add: journey_step_def)

lemma set_dict_set: "set (dict_set d k v) \<subseteq> insert (k, v) (set d)"
  by (induction d k v rule: dict_set.induct) auto

lemma user_journey_Some:
  assumes "user_journey df u = Inr (Some journey)"
  shows "journey \<noteq> []"
    and "\<exists>l e. (l, e) \<in> set df \<and> user_id e = u \<and> page_url e = ''/register''"
proof -
  let ?ud = "sort_values timestamp (filter (\<lambda>(l, e). user_id e = u) df)"
  from assms obtain r rs where reg: "filter (\<lambda>(l, e). page_url e = ''/register'') ?ud = r # rs"
    by (cases "filter (\<lambda>(l, e). page_url e = ''/register'') ?ud")
       (auto simp: user_journey_def Let_def)
  with assms show "journey \<noteq> []"
    by (auto simp: user_journey_def Let_def split: sum.splits if_splits prod.splits)
  from reg have "r \<in> set (filter (\<lambda>(l, e). page_url e = ''/register'') ?ud)" by simp
  then have "r \<in> set df" "user_id (snd r) = u" "page_url (snd r) = ''/register''"
    by (auto simp: sort_values_def)
  moreover obtain l e where "r = (l, e)" by (cases r)
  ultimately show "\<exists>l e. (l, e) \<in> set df \<and> user_id e = u \<and> page_url e = ''/register''"
    by auto
qed

lemma fold_journey_step_invariant:
  assumes "fold (journey_step df) us (Inr js0) = Inr js"
    and "\<And>u j. (u, j) \<in> set js0 \<Longrightarrow> P u j"
    and "\<And>u j. user_journey df u = Inr (Some j) \<Longrightarrow> P u j"
    and "(u, j) \<in> set js"
  shows "P u j"
  using assms(1,2,4)
proof (induction us arbitrary: js0)
  case Nil
  then show ?case by simp
next
  case (Cons v us)
  from Cons.prems(1)
  have run: "fold (journey_step df) us (journey_step df v (Inr js0)) = Inr js"
    by simp
  show ?case
  proof (cases "user_journey df v")
    case (Inl err)
    then have "journey_step df v (Inr js0) = Inl err"
      by (simp add: journey_step_def)
    with run show ?thesis
      by (simp add: fold_journey_step_error)
  next
    case (Inr res)
    show ?thesis
    proof (cases res)
      case None
      with Inr have "journey_step df v (Inr js0) = Inr js0"
        by (simp add: journey_step_def)
      with run have "fold (journey_step df) us (Inr js0) = Inr js"
        by simp
      then show ?thesis using Cons.prems(2,3) by (rule Cons.IH)
    next
      case (Some jv)
      with Inr have "journey_step df v (Inr js0) = Inr (dict_set js0 v jv)"
        by (simp add: journey_step_def)
      with run have run': "fold (journey_step df) us (Inr (dict_set js0 v jv)) = Inr js"
        by simp
      have "P v jv" using Inr Some by (intro assms(3)) simp
      then have "\<And>u j. (u, j) \<in> set (dict_set js0 v jv) \<Longrightarrow> P u j"
        using set_dict_set [of js0 v jv] Cons.prems(2) by auto
      with run' show ?thesis using Cons.prems(3) by (rule Cons.IH)
    qed
  qed
qed

text \<open>
  Whatever the order of the log, a journey that the extraction stores is not empty, and
  its user has a registration row in the log: a user without one contributes no journey.
\<close>

lemma extract_journeys_qualifying:
  assumes "extract_journeys df = Inr journeys" "(u, journey) \<in> set journeys"
  shows "journey \<noteq> []"
    and "\<exists>l e. (l, e) \<in> set df \<and> user_id e = u \<and> page_url e = ''/register''"
proof -
  let ?P = "\<lambda>u j. j \<noteq> [] \<and> (\<exists>l e. (l, e) \<in> set df \<and> user_id e = u \<and> page_url e = ''/register'')"
  have "?P u journey"
  proof (rule fold_journey_step_invariant [where P = ?P])
    show "fold (journey_step df) (unique (map (\<lambda>(l, e). user_id e) df)) (Inr []) = Inr journeys"
      using assms(1) by (simp add: extract_journeys_def)
    show "(u, journey) \<in> set journeys" by (rule assms(2))
  qed (use user_journey_Some in auto)
  then show "journey \<noteq> []"
    and "\<exists>l e. (l, e) \<in> set df \<and> user_id e = u \<and> page_url e = ''/register''"
    by blast+
qed

section \<open>Journey extraction on logs in time order\<close>

text \<open>
  On a frame whose labels increase strictly, the label slice \<^verbatim>\<open>.loc[:k]\<close> is the rows
  labelled at most \<open>k\<close>, whether or not \<open>k\<close> is a label of the frame.
\<close>

lemma loc_upto_increasing:
  assumes "sorted_wrt (<) (map fst df)"
  shows "loc_upto df k = Inr (takeWhile (\<lambda>(l, r). l \<le> k) df)"
  using assms
proof (induction df)
  case Nil
  show ?case by (simp add: loc_upto_def)
next
  case (Cons p df)
  obtain l r where p: "p = (l, r)" by (cases p)
  from Cons.prems have above: "\<And>l'. l' \<in> set (map fst df) \<Longrightarrow> l < l'"
    and rest: "sorted_wrt (<) (map fst df)"
    by (auto simp: p)
  from rest have srt: "sorted (map fst df)" by (simp add: strict_sorted_iff)
  have srt': "sorted (map fst (p # df))"
    using Cons.prems by (auto simp: strict_sorted_iff intro: less_imp_le)
  have IH: "loc_upto df k = Inr (takeWhile (\<lambda>(l, r). l \<le> k) df)"
    using rest by (rule Cons.IH)
  consider (eq) "l = k" | (less) "l < k" | (greater) "k < l" by linarith
  then show ?case
  proof cases
    case eq
    have "takeWhile (\<lambda>(l, r). l \<le> k) df = []"
    proof (cases df)
      case Nil
      then show ?thesis by simp
    next
      case (Cons q qs)
      then have "l < fst q" by (intro above) simp
      with eq Cons show ?thesis by (simp add: case_prod_unfold)
    qed
    with eq show ?thesis by (simp add: loc_upto_def p)
  next
    case less
    show ?thesis
    proof (cases "k \<in> set (map fst df)")
      case True
      with IH less show ?thesis by (simp add: loc_upto_def p Let_def)
    next
      case False
      with IH less srt srt' show ?thesis
        by (simp add: loc_upto_def p Let_def)
    qed
  next
    case greater
    have "k < l'" if "l' \<in> set (map fst (p # df))" for l'
      using that greater above [of l'] by (fastforce simp: p)
    then have out: "k \<notin> set (map fst (p # df))" by blast
    have "filter (\<lambda>l'. l' \<le> k) (map fst (p # df)) = []"
      unfolding filter_empty_conv using \<open>\<And>l'. l' \<in> set (map fst (p # df)) \<Longrightarrow> k < l'\<close>
      by (meson not_le)
    with out srt' greater show ?thesis
      by (simp add: loc_upto_def p Let_def del: set_map list.map)
  qed
qed


lemma read_csv_labels: "sorted_wrt (<) (map fst (read_csv rows))"
proof -
  have "sorted_wrt (<) (map int [0..<length rows])"
    unfolding sorted_wrt_map by simp
  then show ?thesis by (simp add: read_csv_def)
qed

lemma read_csv_rows: "map snd (read_csv rows) = rows"
  by (simp add: read_csv_def)

lemma filter_labels_increasing:
  assumes "sorted_wrt (<) (map fst df)"
  shows "sorted_wrt (<) (map fst (filter P df))"
  using assms unfolding sorted_wrt_map by (rule sorted_wrt_filter)

lemma user_rows_events:
  "map snd (filter (\<lambda>(l, e). user_id e = u) df) = filter (\<lambda>e. user_id e = u) (map snd df)"
  by (induction df) auto

lemma first_match_split:
  assumes "\<exists>x\<in>set xs. P x"
  obtains pre x post where "xs = pre @ x # post" "P x" "takeWhile (\<lambda>y. \<not> P y) xs = pre"
    "filter P xs = x # filter P post"
proof -
  let ?pre = "takeWhile (\<lambda>y. \<not> P y) xs"
  let ?rest = "dropWhile (\<lambda>y. \<not> P y) xs"
  from assms have "?rest \<noteq> []" by (auto simp: dropWhile_eq_Nil_conv)
  then obtain x post where rest: "?rest = x # post" by (cases ?rest) auto
  then have Px: "P x" using hd_dropWhile [of "\<lambda>y. \<not> P y" xs] by auto
  have xs: "xs = ?pre @ x # post" using rest takeWhile_dropWhile_id [of "\<lambda>y. \<not> P y" xs] by simp
  have "filter P ?pre = []"
    by (auto simp: filter_empty_conv dest: set_takeWhileD)
  then have "filter P (?pre @ x # post) = x # filter P post" using Px by simp
  with xs have "filter P xs = x # filter P post" by simp
  with xs Px show ?thesis by (intro that [of ?pre x post]) simp_all
qed

text \<open>
  When the rows of a user stand in the file in the order of their times, sorting moves
  nothing (rows of equal time stay as the model's sort leaves them, in file order), the
  labels of the user's frame increase, and the label slice is the rows before the first
  registration: the source stores the journey that the specification words, unless that
  journey is empty.
\<close>

lemma user_journey_in_time_order:
  assumes ordered: "sorted (map timestamp (filter (\<lambda>e. user_id e = u) hitlog))"
    and registered: "\<exists>e\<in>set hitlog. user_id e = u \<and> page_url e = ''/register''"
  shows "user_journey (read_csv hitlog) u
           = Inr (if spec_journey hitlog u = [] then None
                  else Some (spec_journey hitlog u))"
proof -
  let ?rows = "filter (\<lambda>(l, e). user_id e = u) (read_csv hitlog)"
  let ?reg = "\<lambda>(l :: int, e). page_url e = ''/register''"
  have events: "map snd ?rows = filter (\<lambda>e. user_id e = u) hitlog"
    by (simp add: user_rows_events read_csv_rows)
  have labels: "sorted_wrt (<) (map fst ?rows)"
    by (intro filter_labels_increasing read_csv_labels)
  have "map (\<lambda>(l, e). timestamp e) ?rows = map timestamp (map snd ?rows)"
    by (simp add: case_prod_unfold)
  with ordered events have "sorted (map (\<lambda>(l, e). timestamp e) ?rows)" by simp
  then have sorted_id: "sort_values timestamp ?rows = ?rows"
    unfolding sort_values_def by (rule sort_key_id_if_sorted)
  from registered events have "\<exists>e\<in>set (map snd ?rows). page_url e = ''/register''"
    by auto
  then have "\<exists>x\<in>set ?rows. ?reg x" by (auto simp: case_prod_unfold)
  then obtain pre x post where split: "?rows = pre @ x # post" "?reg x"
      and pre: "takeWhile (\<lambda>y. \<not> ?reg y) ?rows = pre"
      and regs: "filter ?reg ?rows = x # filter ?reg post"
    by (rule first_match_split)
  obtain r e0 where x: "x = (r, e0)" by (cases x)
  have below: "\<And>y. y \<in> set pre \<Longrightarrow> fst y < r"
    using labels unfolding split(1) by (auto simp: sorted_wrt_append x)
  have "takeWhile (\<lambda>(l, e). l \<le> r - 1) (pre @ x # post) = pre"
    using below by (subst takeWhile_append2) (auto simp: x case_prod_unfold)
  then have slice: "loc_upto ?rows (r - 1) = Inr pre"
    using loc_upto_increasing [OF labels, of "r - 1"] by (simp add: split(1))
  have "spec_journey hitlog u
          = map page_url (takeWhile (\<lambda>e. page_url e \<noteq> ''/register'') (map snd ?rows))"
    using ordered by (simp add: spec_journey_def events sort_key_id_if_sorted)
  also have "\<dots> = map (\<lambda>(l, e). page_url e) (takeWhile (\<lambda>y. \<not> ?reg y) ?rows)"
    by (simp add: takeWhile_map comp_def case_prod_unfold)
  finally have journey: "spec_journey hitlog u = map (\<lambda>(l, e). page_url e) pre"
    by (simp add: pre)
  show ?thesis
    unfolding user_journey_def sorted_id Let_def regs x
    by (simp add: slice journey)
qed

section \<open>Journey extraction on logs that are not in time order\<close>

text \<open>
  Claim C4 asks for the URLs of the events that stand before the first registration in
  the time-sorted sequence. In the log below the user's rows 0, 1, 2 carry the times 2,
  1, 3, so the sorted frame has the labels 1, 0, 2 and the registration has label 2.
  The source slices by label up to \<open>2 - 1 = 1\<close>, which is the first row of the sorted frame:
  the journey it stores is \<^verbatim>\<open>["/articles/b"]\<close>, while the events before the registration
  are \<^verbatim>\<open>/articles/b\<close> and \<^verbatim>\<open>/articles/a\<close>.
\<close>

theorem label_slice_loses_page:
  "extract_journeys (read_csv
     [\<lparr>page_name = ''a'', page_url = ''/articles/a'', user_id = ''u1'', timestamp = 2\<rparr>,
      \<lparr>page_name = ''b'', page_url = ''/articles/b'', user_id = ''u1'', timestamp = 1\<rparr>,
      \<lparr>page_name = ''Register'', page_url = ''/register'', user_id = ''u1'', timestamp = 3\<rparr>])
   = Inr [(''u1'', [''/articles/b''])]
   \<and> spec_journey
     [\<lparr>page_name = ''a'', page_url = ''/articles/a'', user_id = ''u1'', timestamp = 2\<rparr>,
      \<lparr>page_name = ''b'', page_url = ''/articles/b'', user_id = ''u1'', timestamp = 1\<rparr>,
      \<lparr>page_name = ''Register'', page_url = ''/register'', user_id = ''u1'', timestamp = 3\<rparr>] ''u1''
   = [''/articles/b'', ''/articles/a'']"
  by code_simp

text \<open>
  When rows of another user stand between the user's rows, the label
  \<^verbatim>\<open>registration_index - 1\<close> may be missing from the user's frame; if the labels of the
  sorted frame are then neither increasing nor decreasing, the slice raises \<^verbatim>\<open>KeyError\<close>
  and the whole run ends with it.
\<close>

lemma label_slice_key_error:
  "extract_journeys (read_csv
     [\<lparr>page_name = ''a'', page_url = ''/articles/a'', user_id = ''u1'', timestamp = 2\<rparr>,
      \<lparr>page_name = ''c'', page_url = ''/articles/c'', user_id = ''u2'', timestamp = 2\<rparr>,
      \<lparr>page_name = ''b'', page_url = ''/articles/b'', user_id = ''u1'', timestamp = 1\<rparr>,
      \<lparr>page_name = ''d'', page_url = ''/articles/d'', user_id = ''u2'', timestamp = 3\<rparr>,
      \<lparr>page_name = ''Register'', page_url = ''/register'', user_id = ''u1'', timestamp = 3\<rparr>])
   = Inl KeyError"
  by code_simp

text \<open>
  Claim C7 asks that a user whose first registration has no event before it contributes no
  journey. In the log below the registration (time 1) is the user's earliest event, but it
  is row 1 of the file: the slice up to label \<open>1 - 1 = 0\<close> ends at the article row, which
  stands after the registration in the sorted frame. The source stores the journey
  \<^verbatim>\<open>["/register", "/articles/a"]\<close> for the user, and the article is credited in the result.
\<close>

theorem registration_first_still_journey:
  "spec_journey
     [\<lparr>page_name = ''a'', page_url = ''/articles/a'', user_id = ''u1'', timestamp = 5\<rparr>,
      \<lparr>page_name = ''Register'', page_url = ''/register'', user_id = ''u1'', timestamp = 1\<rparr>] ''u1''
   = []
   \<and> extract_journeys (read_csv
     [\<lparr>page_name = ''a'', page_url = ''/articles/a'', user_id = ''u1'', timestamp = 5\<rparr>,
      \<lparr>page_name = ''Register'', page_url = ''/register'', user_id = ''u1'', timestamp = 1\<rparr>])
   = Inr [(''u1'', [''/register'', ''/articles/a''])]
   \<and> analyze_user_journeys
     [\<lparr>page_name = ''a'', page_url = ''/articles/a'', user_id = ''u1'', timestamp = 5\<rparr>,
      \<lparr>page_name = ''Register'', page_url = ''/register'', user_id = ''u1'', timestamp = 1\<rparr>]
     ''count''
   = Inr [\<lparr>row_name = ''a'', row_url = ''/articles/a'', total = 1\<rparr>]"
  by code_simp

section \<open>The order of the result table\<close>

text \<open>
  The rows of a result stand in descending order of \<^verbatim>\<open>total\<close>. The order among rows of
  equal total is that of the sorting algorithm, which the source leaves to the default of
  \<^verbatim>\<open>sort_values\<close>; nothing is stated about it here.
\<close>

lemma analyze_result_descending:
  assumes "analyze_user_journeys hitlog m = Inr rows"
  shows "sorted (rev (map total rows))"
proof -
  have "sorted (rev (map total (sort_values_desc total rs)))" for rs :: "influence_row list"
    by (simp add: sort_values_desc_def rev_map)
  with assms show ?thesis
    by (auto simp: analyze_user_journeys_def Let_def split: sum.splits if_splits)
qed

end
